theory Spec2Isabelle
  imports Complex_Main "HOL-Library.Word"
begin

section \<open>Data model\<close>

text \<open>
  A Python \<open>str\<close> is a sequence of Unicode code points. The encoded text holds ideographs
  far beyond 8 bits, so a character of the text is its code point: \<open>Chr n\<close> is Python's
  \<open>chr(n)\<close>. The intermediate bit strings hold only the ASCII digits \<open>0\<close> and \<open>1\<close> and are
  ordinary strings. A \<open>bytes\<close> value is a list of 8-bit words.
\<close>

datatype unichar = Chr nat

type_synonym ustring = "unichar list"

type_synonym byte = "8 word"

text \<open>
  The exceptions the code can raise: \<open>KeyError\<close> carries the missing key, as Python's does;
  \<open>OSError\<close> stands for whatever the archive reader raises.
\<close>

datatype error = KeyError unichar | ValueError | IndexError | OSError

text \<open>
  A list comprehension or generator whose body can raise: elements are produced in order
  and the first exception ends the whole expression.
\<close>

fun traverse :: "('a \<Rightarrow> error + 'b) \<Rightarrow> 'a list \<Rightarrow> error + 'b list" where
  "traverse f [] = Inr []"
| "traverse f (x # xs) =
     (case f x of
        Inl e \<Rightarrow> Inl e
      | Inr y \<Rightarrow> (case traverse f xs of Inl e \<Rightarrow> Inl e | Inr ys \<Rightarrow> Inr (y # ys)))"

section \<open>Python built-ins used by the codec\<close>

text \<open>\<open>range(start, stop, step)\<close> for a positive step.\<close>

function range_py :: "nat \<Rightarrow> nat \<Rightarrow> nat \<Rightarrow> nat list" where
  "range_py i stop step =
     (if 0 < step \<and> i < stop then i # range_py (i + step) stop step else [])"
  by pat_completeness auto
termination
  by (relation "measure (\<lambda>(i, stop, step). stop - i)") auto

declare range_py.simps [simp del]

text \<open>\<open>xs[i:j]\<close> for indices \<open>0 \<le> i \<le> j\<close>: Python clips the slice to the sequence.\<close>

definition slice_py :: "'a list \<Rightarrow> nat \<Rightarrow> nat \<Rightarrow> 'a list" where
  "slice_py xs i j = take (j - i) (drop i xs)"

text \<open>\<open>xs[i]\<close> for a non-negative index: \<open>IndexError\<close> beyond the end.\<close>

definition index_py :: "'a list \<Rightarrow> nat \<Rightarrow> error + 'a" where
  "index_py xs i = (if i < length xs then Inr (xs ! i) else Inl IndexError)"

definition digit_char :: "nat \<Rightarrow> char" where
  "digit_char d = (if d = 0 then CHR ''0'' else CHR ''1'')"

text \<open>The binary digits of a natural number, most significant first (\<open>format(n, 'b')\<close>).\<close>

fun bin_digits :: "nat \<Rightarrow> string" where
  "bin_digits n =
     (if n < 2 then [digit_char n] else bin_digits (n div 2) @ [digit_char (n mod 2)])"

declare bin_digits.simps [simp del]

text \<open>
  \<open>f"{n:0wb}"\<close> for \<open>n \<ge> 0\<close>: the binary digits, filled on the left with \<open>0\<close> up to width
  \<open>w\<close>, and never cut.
\<close>

definition format_b :: "nat \<Rightarrow> nat \<Rightarrow> string" where
  "format_b w n = replicate (w - length (bin_digits n)) CHR ''0'' @ bin_digits n"

text \<open>
  \<open>int(s, 2)\<close> on the strings this program builds, which hold binary digits only: the
  empty string and a string with another character give \<open>ValueError\<close>. (Python's \<open>int\<close>
  accepts a sign, a \<open>0b\<close> prefix, underscores and surrounding blanks as well; no string
  here contains such a character, see \<open>byte_bits_binary\<close> and \<open>symbol_bits_binary\<close>.)
\<close>

definition is_bit :: "char \<Rightarrow> bool" where
  "is_bit c = (c = CHR ''0'' \<or> c = CHR ''1'')"

definition bit_val :: "char \<Rightarrow> nat" where
  "bit_val c = (if c = CHR ''1'' then 1 else 0)"

definition bits_val :: "string \<Rightarrow> nat" where
  "bits_val s = foldl (\<lambda>acc c. 2 * acc + bit_val c) 0 s"

definition int_base2 :: "string \<Rightarrow> error + nat" where
  "int_base2 s = (if s \<noteq> [] \<and> list_all is_bit s then Inr (bits_val s) else Inl ValueError)"

text \<open>One item of \<open>bytes(iterable)\<close>: an integer outside \<open>range(256)\<close> is a \<open>ValueError\<close>.\<close>

definition bytes_item :: "nat \<Rightarrow> error + byte" where
  "bytes_item v = (if v < 256 then Inr (of_nat v) else Inl ValueError)"

section \<open>The alphabet (optimizer.py, lines 24-25)\<close>

definition CHINESE_CHARS :: "unichar list" where
  "CHINESE_CHARS = map (\<lambda>i. Chr (0x4E00 + i)) [0..<8192]"

text \<open>
  The dictionary comprehension over \<open>enumerate(CHINESE_CHARS)\<close> stores the entries in
  order, a later entry replacing an earlier one with the same key.
\<close>

definition CHAR_TO_VAL :: "unichar \<rightharpoonup> nat" where
  "CHAR_TO_VAL = foldl (\<lambda>d (i, ch). d(ch \<mapsto> i)) Map.empty (enumerate 0 CHINESE_CHARS)"

section \<open>The base-8192 codec (optimizer.py)\<close>

text \<open>Line 55: the bytes as one string of binary digits, eight per byte.\<close>

definition byte_bits :: "byte list \<Rightarrow> string" where
  "byte_bits data = concat (map (\<lambda>byte. format_b 8 (unat byte)) data)"

text \<open>Lines 58-59: zeros appended up to the next multiple of 13.\<close>

definition pad13 :: "string \<Rightarrow> string" where
  "pad13 bits =
     (if length bits mod 13 \<noteq> 0
      then bits @ replicate (13 - length bits mod 13) CHR ''0''
      else bits)"

text \<open>Lines 61-63: one symbol for each group of 13 digits.\<close>

definition to_chinese_base8192 :: "byte list \<Rightarrow> error + ustring" where
  "to_chinese_base8192 data =
     (let bits = pad13 (byte_bits data)
      in traverse
           (\<lambda>i. case int_base2 (slice_py bits i (i + 13)) of
                   Inl e \<Rightarrow> Inl e
                 | Inr v \<Rightarrow> index_py CHINESE_CHARS v)
           (range_py 0 (length bits) 13))"

text \<open>Line 77: the 13 binary digits of each symbol's index; an unknown symbol is a \<open>KeyError\<close>.\<close>

definition symbol_bits :: "ustring \<Rightarrow> error + string" where
  "symbol_bits txt =
     (case traverse
             (\<lambda>ch. case CHAR_TO_VAL ch of
                      None \<Rightarrow> Inl (KeyError ch)
                    | Some v \<Rightarrow> Inr (format_b 13 v))
             txt of
        Inl e \<Rightarrow> Inl e
      | Inr parts \<Rightarrow> Inr (concat parts))"

text \<open>Lines 80-85: groups of eight digits, the incomplete ones deleted, each read as a byte.\<close>

definition bits_to_bytes :: "string \<Rightarrow> error + byte list" where
  "bits_to_bytes bits =
     (let bytes_list = map (\<lambda>i. slice_py bits i (i + 8)) (range_py 0 (length bits) 8);
          bytes_list = filter (\<lambda>b. length b = 8) bytes_list
      in traverse
           (\<lambda>b. case int_base2 b of Inl e \<Rightarrow> Inl e | Inr v \<Rightarrow> bytes_item v)
           bytes_list)"

definition from_chinese_base8192 :: "ustring \<Rightarrow> error + byte list" where
  "from_chinese_base8192 txt =
     (case symbol_bits txt of
        Inl e \<Rightarrow> Inl e
      | Inr bits \<Rightarrow> bits_to_bytes bits)"

section \<open>The decoder's second copy (inference.py)\<close>

definition inference_CHINESE_CHARS :: "unichar list" where
  "inference_CHINESE_CHARS = map (\<lambda>i. Chr (0x4E00 + i)) [0..<8192]"

definition inference_CHAR_TO_VAL :: "unichar \<rightharpoonup> nat" where
  "inference_CHAR_TO_VAL =
     foldl (\<lambda>d (i, ch). d(ch \<mapsto> i)) Map.empty (enumerate 0 inference_CHINESE_CHARS)"

text \<open>Lines 39-47 of inference.py, in one piece.\<close>

definition inference_from_chinese_base8192 :: "ustring \<Rightarrow> error + byte list" where
  "inference_from_chinese_base8192 txt =
     (case traverse
             (\<lambda>ch. case inference_CHAR_TO_VAL ch of
                      None \<Rightarrow> Inl (KeyError ch)
                    | Some v \<Rightarrow> Inr (format_b 13 v))
             txt of
        Inl e \<Rightarrow> Inl e
      | Inr parts \<Rightarrow>
          (let bits = concat parts;
               bytes_list = map (\<lambda>i. slice_py bits i (i + 8)) (range_py 0 (length bits) 8);
               bytes_list = filter (\<lambda>b. length b = 8) bytes_list
           in traverse
                (\<lambda>b. case int_base2 b of Inl e \<Rightarrow> Inl e | Inr v \<Rightarrow> bytes_item v)
                bytes_list))"

section \<open>The precision reducer (optimizer.py, lines 28-41)\<close>

text \<open>
  What the reducer reads of a numpy array: its dtype (the kind character and the size of
  an element in bytes), its shape and its elements. The element values are of a type
  \<open>'v\<close> left open; rounding a value from one dtype to another is numpy's work and is
  the parameter \<open>cast\<close>.
\<close>

record dtype =
  kind :: char
  itemsize :: nat

record 'v ndarray =
  dtype :: dtype
  shape :: "nat list"
  elems :: "'v list"

definition float16 :: dtype where
  "float16 = \<lparr>kind = CHR ''f'', itemsize = 2\<rparr>"

definition float32 :: dtype where
  "float32 = \<lparr>kind = CHR ''f'', itemsize = 4\<rparr>"

definition float64 :: dtype where
  "float64 = \<lparr>kind = CHR ''f'', itemsize = 8\<rparr>"

definition int64 :: dtype where
  "int64 = \<lparr>kind = CHR ''i'', itemsize = 8\<rparr>"

definition complex128 :: dtype where
  "complex128 = \<lparr>kind = CHR ''c'', itemsize = 16\<rparr>"

text \<open>A structured dtype, here a record of a 32-bit float and a 32-bit integer.\<close>

definition record_dtype :: dtype where
  "record_dtype = \<lparr>kind = CHR ''V'', itemsize = 8\<rparr>"

text \<open>
  \<open>v.astype(d)\<close>: a new array of dtype \<open>d\<close> and of the same shape, each element
  converted.
\<close>

definition astype :: "(dtype \<Rightarrow> dtype \<Rightarrow> 'v \<Rightarrow> 'v) \<Rightarrow> 'v ndarray \<Rightarrow> dtype \<Rightarrow> 'v ndarray" where
  "astype cast v d = v\<lparr>dtype := d, elems := map (cast (dtype v) d) (elems v)\<rparr>"

text \<open>
  The parameter \<open>np_load\<close> stands for everything numpy does to hand the entries over:
  \<open>np.load\<close> at line 39 and, at line 41, the call of \<open>.items()\<close> and the reading of each
  member, which numpy does lazily. It gives the archive as read, a mapping from names to
  arrays, or the exception raised on the way (a file that is missing or is no archive, a
  member that cannot be read). The dictionary comprehension keeps every key and
  replaces the value of a floating entry only.
\<close>

definition float16_dict_from_npz ::
  "(string \<Rightarrow> error + (string \<rightharpoonup> 'v ndarray)) \<Rightarrow> (dtype \<Rightarrow> dtype \<Rightarrow> 'v \<Rightarrow> 'v) \<Rightarrow> string
     \<Rightarrow> error + (string \<rightharpoonup> 'v ndarray)" where
  "float16_dict_from_npz np_load cast npz_path =
     (case np_load npz_path of
        Inl e \<Rightarrow> Inl e
      | Inr data \<Rightarrow>
          Inr (\<lambda>k. case data k of
                     None \<Rightarrow> None
                   | Some v \<Rightarrow>
                       Some (if kind (dtype v) = CHR ''f'' then astype cast v float16 else v)))"

section \<open>Auxiliary functions of the proofs\<close>

text \<open>A list cut into consecutive groups of \<open>k\<close>, the last one possibly shorter.\<close>

function chunks :: "nat \<Rightarrow> 'a list \<Rightarrow> 'a list list" where
  "chunks k xs = (if k = 0 \<or> xs = [] then [] else take k xs # chunks k (drop k xs))"
  by pat_completeness auto
termination
  by (relation "measure (\<lambda>(k, xs). length xs)") auto

declare chunks.simps [simp del]

text \<open>The \<open>w\<close> low binary digits of \<open>n\<close>, most significant first.\<close>

fun fixed_bits :: "nat \<Rightarrow> nat \<Rightarrow> string" where
  "fixed_bits 0 n = []"
| "fixed_bits (Suc w) n = fixed_bits w (n div 2) @ [digit_char (n mod 2)]"

section \<open>A sample archive\<close>

text \<open>
  An archive with a 64-bit and a 32-bit floating array, an integer array, a complex array
  and an array of records, read from \<open>model.npz\<close>; the sample conversion halves a value,
  so that a converted element differs from its source.
\<close>

definition sample_w :: "int ndarray" where
  "sample_w = \<lparr>dtype = float64, shape = [2, 2], elems = [10, 20, 30, 40]\<rparr>"

definition sample_u :: "int ndarray" where
  "sample_u = \<lparr>dtype = float32, shape = [2], elems = [6, 8]\<rparr>"

definition sample_b :: "int ndarray" where
  "sample_b = \<lparr>dtype = int64, shape = [3], elems = [1, 2, 3]\<rparr>"

definition sample_c :: "int ndarray" where
  "sample_c = \<lparr>dtype = complex128, shape = [1], elems = [5]\<rparr>"

definition sample_r :: "int ndarray" where
  "sample_r = \<lparr>dtype = record_dtype, shape = [1], elems = [7]\<rparr>"

definition sample_archive :: "string \<rightharpoonup> int ndarray" where
  "sample_archive =
     [''w'' \<mapsto> sample_w, ''u'' \<mapsto> sample_u, ''b'' \<mapsto> sample_b, ''c'' \<mapsto> sample_c,
      ''r'' \<mapsto> sample_r]"

definition sample_load :: "string \<Rightarrow> error + (string \<rightharpoonup> int ndarray)" where
  "sample_load path = (if path = ''model.npz'' then Inr sample_archive else Inl OSError)"

definition sample_cast :: "dtype \<Rightarrow> dtype \<Rightarrow> int \<Rightarrow> int" where
  "sample_cast src dst x = x div 2"

section \<open>The alphabet\<close>

lemma dict_build_other:
  assumes f: "\<And>d i ch. f d (i, ch) = d(ch \<mapsto> i)"
  shows "c \<notin> set xs \<Longrightarrow> foldl f m (enumerate n xs) c = m c"
  by (induction xs arbitrary: m n) (auto simp: f)

lemma dict_build_nth:
  assumes f: "\<And>d i ch. f d (i, ch) = d(ch \<mapsto> i)"
  shows "distinct xs \<Longrightarrow> i < length xs \<Longrightarrow> foldl f m (enumerate n xs) (xs ! i) = Some (n + i)"
proof (induction xs arbitrary: m n i)
  case Nil
  then show ?case by simp
next
  case (Cons x xs)
  show ?case
  proof (cases i)
    case 0
    from Cons.prems have "x \<notin> set xs" by simp
    from dict_build_other [of f, OF f this, of "m(x \<mapsto> n)" "Suc n"] 0 show ?thesis
      by (simp add: f)
  next
    case (Suc j)
    from Cons.prems Suc have "distinct xs" and "j < length xs" by simp_all
    then have "foldl f (m(x \<mapsto> n)) (enumerate (Suc n) xs) (xs ! j) = Some (Suc n + j)"
      by (rule Cons.IH)
    with Suc show ?thesis by (simp add: f)
  qed
qed

lemma CHINESE_CHARS_length: "length CHINESE_CHARS = 8192"
  by (simp add: CHINESE_CHARS_def)

lemma CHINESE_CHARS_nth: "i < 8192 \<Longrightarrow> CHINESE_CHARS ! i = Chr (0x4E00 + i)"
  by (simp add: CHINESE_CHARS_def)

lemma CHINESE_CHARS_distinct: "distinct CHINESE_CHARS"
  by (simp add: CHINESE_CHARS_def distinct_map inj_on_def)

lemma in_CHINESE_CHARS: "Chr c \<in> set CHINESE_CHARS \<longleftrightarrow> 0x4E00 \<le> c \<and> c < 0x6E00"
proof
  assume "Chr c \<in> set CHINESE_CHARS"
  then show "0x4E00 \<le> c \<and> c < 0x6E00" by (auto simp: CHINESE_CHARS_def)
next
  assume c: "0x4E00 \<le> c \<and> c < 0x6E00"
  then have d: "c - 0x4E00 < 8192" and e: "0x4E00 + (c - 0x4E00) = c" by arith+
  from d have "CHINESE_CHARS ! (c - 0x4E00) \<in> set CHINESE_CHARS"
    by (simp add: CHINESE_CHARS_length)
  with CHINESE_CHARS_nth [OF d] e show "Chr c \<in> set CHINESE_CHARS" by simp
qed

lemma CHAR_TO_VAL_nth: "i < 8192 \<Longrightarrow> CHAR_TO_VAL (CHINESE_CHARS ! i) = Some i"
  using dict_build_nth [of "\<lambda>d (i, ch). d(ch \<mapsto> i)" CHINESE_CHARS i Map.empty 0]
  by (simp add: CHAR_TO_VAL_def CHINESE_CHARS_length CHINESE_CHARS_distinct)

lemma CHAR_TO_VAL_outside: "ch \<notin> set CHINESE_CHARS \<Longrightarrow> CHAR_TO_VAL ch = None"
  using dict_build_other [of "\<lambda>d (i, ch). d(ch \<mapsto> i)" ch CHINESE_CHARS Map.empty 0]
  by (simp add: CHAR_TO_VAL_def)

lemma CHAR_TO_VAL_inside:
  assumes "ch \<in> set CHINESE_CHARS"
  shows "\<exists>i<8192. ch = CHINESE_CHARS ! i \<and> CHAR_TO_VAL ch = Some i"
proof -
  from assms obtain i where "i < length CHINESE_CHARS" "CHINESE_CHARS ! i = ch"
    by (auto simp: in_set_conv_nth)
  then show ?thesis using CHAR_TO_VAL_nth [of i] by (auto simp: CHINESE_CHARS_length)
qed

lemma CHAR_TO_VAL_None: "CHAR_TO_VAL ch = None \<longleftrightarrow> ch \<notin> set CHINESE_CHARS"
  using CHAR_TO_VAL_inside [of ch] CHAR_TO_VAL_outside [of ch] by auto

lemma CHAR_TO_VAL_Some:
  "CHAR_TO_VAL ch = Some v \<longleftrightarrow> v < 8192 \<and> ch = CHINESE_CHARS ! v"
proof
  assume h: "CHAR_TO_VAL ch = Some v"
  then have "ch \<in> set CHINESE_CHARS" using CHAR_TO_VAL_outside [of ch] by auto
  from CHAR_TO_VAL_inside [OF this] h show "v < 8192 \<and> ch = CHINESE_CHARS ! v" by auto
next
  assume "v < 8192 \<and> ch = CHINESE_CHARS ! v"
  then show "CHAR_TO_VAL ch = Some v" by (simp add: CHAR_TO_VAL_nth)
qed

lemma CHAR_TO_VAL_Chr:
  "CHAR_TO_VAL (Chr c) = (if 0x4E00 \<le> c \<and> c < 0x6E00 then Some (c - 0x4E00) else None)"
proof (cases "0x4E00 \<le> c \<and> c < 0x6E00")
  case True
  then have d: "c - 0x4E00 < 8192" and e: "0x4E00 + (c - 0x4E00) = c" by arith+
  from CHAR_TO_VAL_nth [OF d] CHINESE_CHARS_nth [OF d] e True show ?thesis by simp
next
  case False
  then show ?thesis using CHAR_TO_VAL_None [of "Chr c"] in_CHINESE_CHARS [of c] by auto
qed

lemma symbol_lookup_KeyError:
  "find (\<lambda>ch. ch \<notin> set CHINESE_CHARS) t = Some c \<Longrightarrow>
   traverse (\<lambda>ch. case CHAR_TO_VAL ch of None \<Rightarrow> Inl (KeyError ch) | Some v \<Rightarrow> Inr (format_b 13 v)) t
     = Inl (KeyError c)"
proof (induction t)
  case Nil
  then show ?case by simp
next
  case (Cons a t)
  show ?case
  proof (cases "a \<in> set CHINESE_CHARS")
    case True
    then obtain v where "CHAR_TO_VAL a = Some v" using CHAR_TO_VAL_inside [of a] by auto
    with True Cons show ?thesis by simp
  next
    case False
    with Cons.prems show ?thesis by (simp add: CHAR_TO_VAL_outside)
  qed
qed

text \<open>
  Claim C3. The alphabet is a bijection between the indices below 8192 and the symbols:
  the list holds 8192 pairwise distinct symbols, the \<open>i\<close>-th is \<open>chr(0x4E00 + i)\<close>, the
  symbol-to-index table sends it back to \<open>i\<close>, and the table has no other entry.
\<close>

theorem alphabet_bijective:
  "length CHINESE_CHARS = 8192 \<and> distinct CHINESE_CHARS \<and>
   (\<forall>i<8192. CHINESE_CHARS ! i = Chr (0x4E00 + i) \<and> CHAR_TO_VAL (CHINESE_CHARS ! i) = Some i) \<and>
   (\<forall>ch v. CHAR_TO_VAL ch = Some v \<longrightarrow> v < 8192 \<and> CHINESE_CHARS ! v = ch)"
  using CHAR_TO_VAL_Some
  by (simp add: CHINESE_CHARS_length CHINESE_CHARS_distinct CHINESE_CHARS_nth CHAR_TO_VAL_nth)

theorem alphabet_bijective_witness:
  "(8191::nat) < 8192 \<and> CHINESE_CHARS ! 8191 = Chr 0x6DFF \<and>
   CHAR_TO_VAL (CHINESE_CHARS ! 8191) = Some 8191 \<and>
   CHAR_TO_VAL (Chr 0x4E00) = Some 0 \<and> (0::nat) < 8192 \<and> CHINESE_CHARS ! 0 = Chr 0x4E00"
proof -
  have a: "\<forall>i<8192. CHINESE_CHARS ! i = Chr (0x4E00 + i) \<and> CHAR_TO_VAL (CHINESE_CHARS ! i) = Some i"
    and b: "\<forall>ch v. CHAR_TO_VAL ch = Some v \<longrightarrow> v < 8192 \<and> CHINESE_CHARS ! v = ch"
    using alphabet_bijective by blast+
  have l: "(8191::nat) < 8192" by simp
  from a l have "CHINESE_CHARS ! 8191 = Chr (0x4E00 + 8191)"
    and "CHAR_TO_VAL (CHINESE_CHARS ! 8191) = Some 8191" by blast+
  moreover have z: "CHAR_TO_VAL (Chr 0x4E00) = Some 0" by (simp add: CHAR_TO_VAL_Chr)
  moreover from b z have "CHINESE_CHARS ! 0 = Chr 0x4E00" by blast
  ultimately show ?thesis by simp
qed

section \<open>Unknown symbols\<close>

text \<open>
  Claim C4. A text with a character outside the alphabet is not decoded: the lookup of the
  first such character raises \<open>KeyError\<close> (the spec's UnknownSymbol), and the call
  returns no bytes at all.
\<close>

theorem unknown_symbol_rejected:
  assumes "\<not> set t \<subseteq> set CHINESE_CHARS"
  shows "\<exists>c. find (\<lambda>ch. ch \<notin> set CHINESE_CHARS) t = Some c \<and>
             from_chinese_base8192 t = Inl (KeyError c)"
proof -
  from assms obtain c where c: "find (\<lambda>ch. ch \<notin> set CHINESE_CHARS) t = Some c"
    by (cases "find (\<lambda>ch. ch \<notin> set CHINESE_CHARS) t") (auto simp: find_None_iff)
  from symbol_lookup_KeyError [OF this] have "symbol_bits t = Inl (KeyError c)"
    by (simp add: symbol_bits_def)
  with c show ?thesis by (simp add: from_chinese_base8192_def)
qed

theorem unknown_symbol_rejected_witness:
  "\<not> set [Chr 0x4E00, Chr 0x41, Chr 0x20, Chr 0x4E01] \<subseteq> set CHINESE_CHARS \<and>
   from_chinese_base8192 [Chr 0x4E00, Chr 0x41, Chr 0x20, Chr 0x4E01] = Inl (KeyError (Chr 0x41))"
proof -
  have h: "\<not> set [Chr 0x4E00, Chr 0x41, Chr 0x20, Chr 0x4E01] \<subseteq> set CHINESE_CHARS"
    by (simp add: in_CHINESE_CHARS)
  from unknown_symbol_rejected [OF h] h show ?thesis by (simp add: in_CHINESE_CHARS)
qed

section \<open>Binary digits\<close>

lemma length_fixed_bits: "length (fixed_bits w n) = w"
  by (induction w arbitrary: n) simp_all

lemma is_bit_digit_char: "is_bit (digit_char d)"
  by (simp add: is_bit_def digit_char_def)

lemma bit_val_digit_char: "d < 2 \<Longrightarrow> bit_val (digit_char d) = d"
  by (auto simp: bit_val_def digit_char_def)

lemma digit_char_bit_val: "is_bit c \<Longrightarrow> digit_char (bit_val c) = c"
  by (auto simp: is_bit_def bit_val_def digit_char_def)

lemma bit_val_less: "bit_val c < 2"
  by (simp add: bit_val_def)

lemma fixed_bits_binary: "list_all is_bit (fixed_bits w n)"
  by (induction w arbitrary: n) (simp_all add: is_bit_digit_char)

lemma bits_val_Nil: "bits_val [] = 0"
  by (simp add: bits_val_def)

lemma bits_val_snoc: "bits_val (s @ [c]) = 2 * bits_val s + bit_val c"
  by (simp add: bits_val_def)

lemma bits_val_fixed_bits: "bits_val (fixed_bits w n) = n mod 2 ^ w"
proof (induction w arbitrary: n)
  case 0
  show ?case by (simp add: bits_val_Nil)
next
  case (Suc w)
  have "bits_val (fixed_bits (Suc w) n) = 2 * (n div 2 mod 2 ^ w) + n mod 2"
    by (simp add: bits_val_snoc Suc bit_val_digit_char)
  also have "\<dots> = n mod 2 ^ Suc w"
    by (simp add: mod_mult2_eq add.commute)
  finally show ?case .
qed

lemma bits_val_bound: "bits_val s < 2 ^ length s"
proof (induction s rule: rev_induct)
  case Nil
  show ?case by (simp add: bits_val_Nil)
next
  case (snoc c s)
  have "bit_val c < 2" by (rule bit_val_less)
  with snoc show ?case by (simp add: bits_val_snoc)
qed

lemma fixed_bits_bits_val: "list_all is_bit s \<Longrightarrow> fixed_bits (length s) (bits_val s) = s"
proof (induction s rule: rev_induct)
  case Nil
  show ?case by simp
next
  case (snoc c s)
  have c: "bit_val c < 2" by (rule bit_val_less)
  then have "(2 * bits_val s + bit_val c) div 2 = bits_val s"
    and "(2 * bits_val s + bit_val c) mod 2 = bit_val c" by simp_all
  with snoc show ?case by (simp add: bits_val_snoc digit_char_bit_val)
qed

lemma fixed_bits_zero: "fixed_bits w 0 = replicate w CHR ''0''"
  by (induction w) (simp_all add: digit_char_def replicate_append_same)

lemma format_b_fixed_bits: "0 < w \<Longrightarrow> n < 2 ^ w \<Longrightarrow> format_b w n = fixed_bits w n"
proof (induction n arbitrary: w rule: bin_digits.induct)
  case (1 n)
  from \<open>0 < w\<close> obtain w' where w: "w = Suc w'" by (cases w) auto
  show ?case
  proof (cases "n < 2")
    case True
    then have "n div 2 = 0" and "n mod 2 = n" by simp_all
    with True w show ?thesis
      by (simp add: format_b_def bin_digits.simps [of n] fixed_bits_zero)
  next
    case False
    with \<open>n < 2 ^ w\<close> w have "0 < w'" by (cases w') auto
    moreover from \<open>n < 2 ^ w\<close> w have "n div 2 < 2 ^ w'" by (simp add: less_mult_imp_div_less)
    ultimately have ih: "format_b w' (n div 2) = fixed_bits w' (n div 2)"
      using "1.IH" False by simp
    have "length (bin_digits (n div 2)) \<le> w'"
      using arg_cong [OF ih, of length] by (simp add: format_b_def length_fixed_bits)
    with False w ih show ?thesis
      by (simp add: format_b_def bin_digits.simps [of n] Suc_diff_le)
  qed
qed

lemma length_format_b: "0 < w \<Longrightarrow> n < 2 ^ w \<Longrightarrow> length (format_b w n) = w"
  by (simp add: format_b_fixed_bits length_fixed_bits)

lemma format_b_binary: "0 < w \<Longrightarrow> n < 2 ^ w \<Longrightarrow> list_all is_bit (format_b w n)"
  by (simp add: format_b_fixed_bits fixed_bits_binary)

lemma format_b_bits_val:
  "s \<noteq> [] \<Longrightarrow> list_all is_bit s \<Longrightarrow> format_b (length s) (bits_val s) = s"
  by (simp add: format_b_fixed_bits bits_val_bound fixed_bits_bits_val)

lemma bits_val_format_b: "0 < w \<Longrightarrow> n < 2 ^ w \<Longrightarrow> bits_val (format_b w n) = n"
  by (simp add: format_b_fixed_bits bits_val_fixed_bits)

section \<open>Slices and groups\<close>

lemma chunks_Nil: "chunks k [] = []"
  by (simp add: chunks.simps)

lemma chunks_step: "0 < k \<Longrightarrow> xs \<noteq> [] \<Longrightarrow> chunks k xs = take k xs # chunks k (drop k xs)"
  by (subst chunks.simps) simp

lemma slices_chunks_from:
  "stop = length xs \<Longrightarrow>
   map (\<lambda>i. slice_py xs i (i + k)) (range_py i stop k) = chunks k (drop i xs)"
proof (induction i stop k rule: range_py.induct)
  case (1 i stop step)
  show ?case
  proof (cases "0 < step \<and> i < stop")
    case True
    with "1.prems" have ne: "drop i xs \<noteq> []" by simp
    from True "1.IH" "1.prems"
    have ih: "map (\<lambda>i. slice_py xs i (i + step)) (range_py (i + step) stop step)
               = chunks step (drop (i + step) xs)"
      by simp
    have "range_py i stop step = i # range_py (i + step) stop step"
      using True by (subst range_py.simps) simp
    moreover have "chunks step (drop i xs)
        = take step (drop i xs) # chunks step (drop (i + step) xs)"
      using True ne by (simp add: chunks_step add.commute)
    ultimately show ?thesis using ih by (simp add: slice_py_def)
  next
    case False
    then have "range_py i stop step = []" by (subst range_py.simps) simp
    moreover from False "1.prems" have "chunks step (drop i xs) = []"
      by (subst chunks.simps) auto
    ultimately show ?thesis by simp
  qed
qed

lemma slices_chunks:
  "map (\<lambda>i. slice_py xs i (i + k)) (range_py 0 (length xs) k) = chunks k xs"
  using slices_chunks_from [of "length xs" xs k 0] by simp

lemma chunks_append_full:
  "0 < k \<Longrightarrow> length x = k \<Longrightarrow> chunks k (x @ r) = x # chunks k r"
  by (subst chunks.simps) auto

lemma chunks_concat:
  "0 < k \<Longrightarrow> list_all (\<lambda>x. length x = k) xss \<Longrightarrow> chunks k (concat xss @ r) = xss @ chunks k r"
  by (induction xss) (simp_all add: chunks_append_full)

lemma concat_chunks: "0 < k \<Longrightarrow> concat (chunks k xs) = xs"
proof (induction k xs rule: chunks.induct)
  case (1 k xs)
  then show ?case by (cases "xs = []") (simp_all add: chunks_Nil chunks_step)
qed

lemma chunks_subset: "c \<in> set (chunks k xs) \<Longrightarrow> c \<noteq> [] \<and> length c \<le> k \<and> set c \<subseteq> set xs"
proof (induction k xs rule: chunks.induct)
  case (1 k xs)
  show ?case
  proof (cases "k = 0 \<or> xs = []")
    case True
    with "1.prems" show ?thesis by (simp add: chunks.simps [of k xs])
  next
    case False
    with "1.prems" have "c = take k xs \<or> c \<in> set (chunks k (drop k xs))"
      by (simp add: chunks_step)
    then show ?thesis
    proof
      assume "c = take k xs"
      with False show ?thesis by (auto dest: in_set_takeD)
    next
      assume "c \<in> set (chunks k (drop k xs))"
      with "1.IH" False show ?thesis by (auto dest: in_set_dropD)
    qed
  qed
qed

lemma length_chunks: "0 < k \<Longrightarrow> length (chunks k xs) = (length xs + k - 1) div k"
proof (induction k xs rule: chunks.induct)
  case (1 k xs)
  show ?case
  proof (cases "xs = []")
    case True
    with "1.prems" show ?thesis by (simp add: chunks_Nil)
  next
    case False
    then have "0 < length xs" by simp
    then have e: "length xs + k - 1 = (length xs - 1) + k" by arith
    have d: "(length xs + k - 1) div k = Suc ((length xs - 1) div k)"
      using "1.prems" by (simp only: e div_add_self2)
    from "1.IH" "1.prems" False
    have ih: "length (chunks k (drop k xs)) = (length (drop k xs) + k - 1) div k" by simp
    show ?thesis
    proof (cases "length xs \<le> k")
      case True
      with \<open>0 < length xs\<close> have "length xs - 1 < k" by arith
      then have "(length xs - 1) div k = 0" by (rule div_less)
      with True False "1.prems" d show ?thesis by (simp add: chunks_step chunks_Nil)
    next
      case False
      then have "length (drop k xs) + k - 1 = length xs - 1" by simp
      with ih d \<open>xs \<noteq> []\<close> "1.prems" show ?thesis by (simp add: chunks_step)
    qed
  qed
qed

lemma full_chunks:
  "0 < k \<Longrightarrow> k dvd length xs \<Longrightarrow> list_all (\<lambda>c. length c = k) (chunks k xs)"
proof (induction k xs rule: chunks.induct)
  case (1 k xs)
  show ?case
  proof (cases "xs = []")
    case True
    then show ?thesis by (simp add: chunks_Nil)
  next
    case False
    with "1.prems" have "k \<le> length xs" by (auto dest: dvd_imp_le)
    moreover with "1.prems" have "k dvd length xs - k" by (simp add: dvd_diff_nat)
    ultimately show ?thesis using "1.IH" "1.prems" False by (simp add: chunks_step)
  qed
qed

lemma length_filter_chunks:
  "0 < k \<Longrightarrow> length (filter (\<lambda>b. length b = k) (chunks k xs)) = length xs div k"
proof (induction k xs rule: chunks.induct)
  case (1 k xs)
  show ?case
  proof (cases "xs = []")
    case True
    then show ?thesis by (simp add: chunks_Nil)
  next
    case False
    show ?thesis
    proof (cases "k \<le> length xs")
      case True
      with "1.IH" "1.prems" False show ?thesis
        by (simp add: chunks_step le_div_geq)
    next
      case False
      with "1.prems" \<open>xs \<noteq> []\<close> show ?thesis by (simp add: chunks_step chunks_Nil)
    qed
  qed
qed

lemma concat_filter_chunks:
  "0 < k \<Longrightarrow> concat (filter (\<lambda>b. length b = k) (chunks k xs)) = take (k * (length xs div k)) xs"
proof (induction k xs rule: chunks.induct)
  case (1 k xs)
  show ?case
  proof (cases "xs = []")
    case True
    then show ?thesis by (simp add: chunks_Nil)
  next
    case False
    show ?thesis
    proof (cases "k \<le> length xs")
      case True
      then have d: "length xs div k = Suc ((length xs - k) div k)"
        using "1.prems" by (simp add: le_div_geq)
      have "take (k * Suc ((length xs - k) div k)) xs
          = take k xs @ take (k * ((length xs - k) div k)) (drop k xs)"
        by (simp add: take_add)
      with "1.IH" "1.prems" False True d show ?thesis
        by (simp add: chunks_step)
    next
      case False
      with "1.prems" \<open>xs \<noteq> []\<close> show ?thesis by (simp add: chunks_step chunks_Nil)
    qed
  qed
qed

lemma traverse_total: "list_all (\<lambda>x. f x = Inr (g x)) xs \<Longrightarrow> traverse f xs = Inr (map g xs)"
  by (induction xs) simp_all

section \<open>The codec\<close>

lemma traverse_map: "traverse f (map g xs) = traverse (\<lambda>x. f (g x)) xs"
  by (induction xs) (simp_all split: sum.splits)

lemma int_base2_bits: "s \<noteq> [] \<Longrightarrow> list_all is_bit s \<Longrightarrow> int_base2 s = Inr (bits_val s)"
  by (simp add: int_base2_def)

lemma list_all_subset: "list_all P xs \<Longrightarrow> set c \<subseteq> set xs \<Longrightarrow> list_all P c"
  by (auto simp: list_all_iff)

lemma chunk_binary: "list_all is_bit xs \<Longrightarrow> c \<in> set (chunks k xs) \<Longrightarrow> list_all is_bit c"
  using chunks_subset [of c k xs] by (simp add: list_all_subset)

subsection \<open>The encoder\<close>

lemma unat_byte_less: "unat (b :: byte) < 2 ^ 8"
  using unsigned_less [of b] by simp

lemma length_format_byte: "length (format_b 8 (unat (b :: byte))) = 8"
  using length_format_b [of 8 "unat b"] unat_byte_less [of b] by simp

lemma format_byte_binary: "list_all is_bit (format_b 8 (unat (b :: byte)))"
  using format_b_binary [of 8 "unat b"] unat_byte_less [of b] by simp

lemma length_byte_bits: "length (byte_bits data) = 8 * length data"
  by (induction data) (simp_all add: byte_bits_def length_format_byte)

lemma byte_bits_binary: "list_all is_bit (byte_bits data)"
  by (induction data) (simp_all add: byte_bits_def format_byte_binary)

lemma pad13_eq:
  "pad13 bits = bits @ replicate ((13 - length bits mod 13) mod 13) CHR ''0''"
proof (cases "length bits mod 13 = 0")
  case True
  then show ?thesis by (simp add: pad13_def)
next
  case False
  then have "13 - length bits mod 13 < 13" by simp
  with False show ?thesis by (simp add: pad13_def)
qed

lemma ceil13: "((n::nat) + 12) div 13 = n div 13 + (if n mod 13 = 0 then 0 else 1)"
proof -
  define q r where "q = n div 13" and "r = n mod 13"
  have n: "n = r + q * 13" and r: "r < 13" by (simp_all add: q_def r_def)
  have "(n + 12) div 13 = (r + 12 + q * 13) div 13" by (simp add: n)
  also have "\<dots> = q + (r + 12) div 13" by (rule div_mult_self1) simp
  also have "(r + 12) div 13 = (if r = 0 then 0 else 1)"
  proof (cases "r = 0")
    case True
    then show ?thesis by simp
  next
    case False
    with r have "13 * 1 \<le> r + 12" and "r + 12 < 13 * Suc 1" by simp_all
    then have "(r + 12) div 13 = 1" by (rule div_nat_eqI)
    with False show ?thesis by simp
  qed
  finally show ?thesis by (simp add: q_def r_def)
qed

lemma length_pad13: "length (pad13 bits) = 13 * ((length bits + 12) div 13)"
proof -
  define q r where "q = length bits div 13" and "r = length bits mod 13"
  have n: "length bits = r + q * 13" and r: "r < 13" by (simp_all add: q_def r_def)
  have c: "(length bits + 12) div 13 = q + (if r = 0 then 0 else 1)"
    using ceil13 [of "length bits"] by (simp add: q_def r_def)
  have "length (pad13 bits) = (if r = 0 then length bits else length bits + (13 - r))"
    by (simp add: pad13_def r_def)
  also have "\<dots> = 13 * (q + (if r = 0 then 0 else 1))" using n r by auto
  also have "\<dots> = 13 * ((length bits + 12) div 13)" by (simp only: c)
  finally show ?thesis .
qed

lemma pad13_binary: "list_all is_bit bits \<Longrightarrow> list_all is_bit (pad13 bits)"
  by (simp add: pad13_def is_bit_def list_all_iff)

lemma symbol_of_chunk:
  assumes "c \<noteq> []" and "list_all is_bit c" and "length c \<le> 13"
  shows "(case int_base2 c of Inl e \<Rightarrow> Inl e | Inr v \<Rightarrow> index_py CHINESE_CHARS v)
           = Inr (CHINESE_CHARS ! bits_val c)"
proof -
  have "bits_val c < 2 ^ length c" by (rule bits_val_bound)
  also from assms(3) have "(2::nat) ^ length c \<le> 2 ^ 13" by (rule power_increasing) simp
  finally have "bits_val c < 8192" by simp
  with assms show ?thesis by (simp add: int_base2_bits index_py_def CHINESE_CHARS_length)
qed

lemma to_chinese_base8192_eq:
  "to_chinese_base8192 data
     = Inr (map (\<lambda>c. CHINESE_CHARS ! bits_val c) (chunks 13 (pad13 (byte_bits data))))"
proof -
  let ?bits = "pad13 (byte_bits data)"
  let ?f = "\<lambda>c. case int_base2 c of Inl e \<Rightarrow> Inl e | Inr v \<Rightarrow> index_py CHINESE_CHARS v"
  have b: "list_all is_bit ?bits" by (simp add: pad13_binary byte_bits_binary)
  have "list_all (\<lambda>c. ?f c = Inr (CHINESE_CHARS ! bits_val c)) (chunks 13 ?bits)"
    unfolding list_all_iff
  proof
    fix c assume c: "c \<in> set (chunks 13 ?bits)"
    from chunks_subset [OF c] chunk_binary [OF b c]
    show "?f c = Inr (CHINESE_CHARS ! bits_val c)" by (simp add: symbol_of_chunk)
  qed
  then have "traverse ?f (chunks 13 ?bits)
      = Inr (map (\<lambda>c. CHINESE_CHARS ! bits_val c) (chunks 13 ?bits))"
    by (rule traverse_total)
  moreover have "traverse (\<lambda>i. ?f (slice_py ?bits i (i + 13))) (range_py 0 (length ?bits) 13)
      = traverse ?f (chunks 13 ?bits)"
    using traverse_map [of ?f "\<lambda>i. slice_py ?bits i (i + 13)" "range_py 0 (length ?bits) 13"]
    by (simp only: slices_chunks)
  ultimately show ?thesis by (simp add: to_chinese_base8192_def Let_def)
qed

lemma length_encoded:
  "length (chunks 13 (pad13 (byte_bits data))) = (8 * length data + 12) div 13"
  by (simp add: length_chunks length_pad13 length_byte_bits)

subsection \<open>Symbol count\<close>

lemma ceiling_div13: "\<lceil>real n / 13\<rceil> = int ((n + 12) div 13)"
proof -
  define q r where "q = n div 13" and "r = n mod 13"
  have n: "n = r + q * 13" and r: "r < 13" by (simp_all add: q_def r_def)
  have m: "(n + 12) div 13 = q + (if r = 0 then 0 else 1)"
    using ceil13 [of n] by (simp add: q_def r_def)
  show ?thesis
  proof (rule ceiling_unique)
    show "of_int (int ((n + 12) div 13)) - 1 < real n / 13"
      using r by (auto simp: m n)
    show "real n / 13 \<le> of_int (int ((n + 12) div 13))"
      using r by (auto simp: m n)
  qed
qed

text \<open>
  Claim C2. The bit string of \<open>N\<close> bytes has \<open>8 * N\<close> digits; it is padded on the right with
  exactly \<open>(13 - 8 * N mod 13) mod 13\<close> zeros; and the encoder returns, without an
  exception, a text of exactly \<open>\<lceil>8 * N / 13\<rceil>\<close> symbols.
\<close>

theorem symbol_count:
  "length (byte_bits b) = 8 * length b \<and>
   pad13 (byte_bits b) = byte_bits b @ replicate ((13 - 8 * length b mod 13) mod 13) CHR ''0'' \<and>
   (\<exists>t. to_chinese_base8192 b = Inr t \<and> int (length t) = \<lceil>8 * real (length b) / 13\<rceil>)"
proof -
  have "\<lceil>8 * real (length b) / 13\<rceil> = int ((8 * length b + 12) div 13)"
    using ceiling_div13 [of "8 * length b"] by simp
  then have "\<exists>t. to_chinese_base8192 b = Inr t \<and> int (length t) = \<lceil>8 * real (length b) / 13\<rceil>"
    by (simp add: to_chinese_base8192_eq length_encoded)
  moreover have "pad13 (byte_bits b)
      = byte_bits b @ replicate ((13 - 8 * length b mod 13) mod 13) CHR ''0''"
    using pad13_eq [of "byte_bits b"] by (simp only: length_byte_bits)
  ultimately show ?thesis by (simp add: length_byte_bits)
qed

subsection \<open>The decoder\<close>

lemma alphabet_text:
  "set t \<subseteq> set CHINESE_CHARS \<Longrightarrow>
   \<exists>vs. list_all (\<lambda>v. v < 8192) vs \<and> t = map (\<lambda>v. CHINESE_CHARS ! v) vs"
proof (induction t)
  case Nil
  show ?case by simp
next
  case (Cons ch t)
  then obtain vs where vs: "list_all (\<lambda>v. v < 8192) vs" "t = map (\<lambda>v. CHINESE_CHARS ! v) vs"
    by auto
  from Cons.prems obtain v where v: "v < 8192" "ch = CHINESE_CHARS ! v"
    using CHAR_TO_VAL_inside [of ch] by auto
  with vs have "list_all (\<lambda>v. v < 8192) (v # vs) \<and> ch # t = map (\<lambda>v. CHINESE_CHARS ! v) (v # vs)"
    by simp
  then show ?case by (rule exI [of _ "v # vs"])
qed

lemma symbol_bits_eq:
  assumes "list_all (\<lambda>v. v < 8192) vs"
  shows "symbol_bits (map (\<lambda>v. CHINESE_CHARS ! v) vs) = Inr (concat (map (format_b 13) vs))"
proof -
  let ?f = "\<lambda>ch. case CHAR_TO_VAL ch of None \<Rightarrow> Inl (KeyError ch) | Some v \<Rightarrow> Inr (format_b 13 v)"
  from assms have "list_all (\<lambda>v. ?f (CHINESE_CHARS ! v) = Inr (format_b 13 v)) vs"
    by (simp add: list_all_iff CHAR_TO_VAL_nth)
  then have "traverse (\<lambda>v. ?f (CHINESE_CHARS ! v)) vs = Inr (map (format_b 13) vs)"
    by (rule traverse_total)
  then show ?thesis by (simp add: symbol_bits_def traverse_map)
qed

lemma length_symbol_bits:
  "list_all (\<lambda>v. v < 8192) vs \<Longrightarrow> length (concat (map (format_b 13) vs)) = 13 * length vs"
proof (induction vs)
  case Nil
  show ?case by simp
next
  case (Cons v vs)
  then have "v < 2 ^ 13" by simp
  then have "length (format_b 13 v) = 13" by (simp add: length_format_b)
  with Cons show ?case by simp
qed

lemma symbol_bits_binary:
  "list_all (\<lambda>v. v < 8192) vs \<Longrightarrow> list_all is_bit (concat (map (format_b 13) vs))"
proof (induction vs)
  case Nil
  show ?case by simp
next
  case (Cons v vs)
  then have "v < 2 ^ 13" by simp
  then have "list_all is_bit (format_b 13 v)" by (simp add: format_b_binary)
  with Cons show ?case by simp
qed

lemma byte_of_group:
  assumes "length c = 8" and "list_all is_bit c"
  shows "(case int_base2 c of Inl e \<Rightarrow> Inl e | Inr v \<Rightarrow> bytes_item v) = Inr (of_nat (bits_val c))"
    and "format_b 8 (unat (of_nat (bits_val c) :: byte)) = c"
proof -
  from assms(1) have ne: "c \<noteq> []" by auto
  have "bits_val c < 2 ^ length c" by (rule bits_val_bound)
  with assms(1) have less: "bits_val c < 256" by simp
  with ne assms(2)
  show "(case int_base2 c of Inl e \<Rightarrow> Inl e | Inr v \<Rightarrow> bytes_item v) = Inr (of_nat (bits_val c))"
    by (simp add: int_base2_bits bytes_item_def)
  from less have "unat (of_nat (bits_val c) :: byte) = bits_val c"
    by (simp add: unat_of_nat)
  with format_b_bits_val [OF ne assms(2)] assms(1)
  show "format_b 8 (unat (of_nat (bits_val c) :: byte)) = c" by simp
qed

lemma bits_to_bytes_eq:
  assumes "list_all is_bit bits"
  shows "bits_to_bytes bits
     = Inr (map (\<lambda>b. of_nat (bits_val b)) (filter (\<lambda>b. length b = 8) (chunks 8 bits)))"
proof -
  let ?f = "\<lambda>b. case int_base2 b of Inl e \<Rightarrow> Inl e | Inr v \<Rightarrow> bytes_item v"
  let ?groups = "filter (\<lambda>b. length b = 8) (chunks 8 bits)"
  have "list_all (\<lambda>b. ?f b = Inr (of_nat (bits_val b))) ?groups"
    unfolding list_all_iff
  proof
    fix c assume "c \<in> set ?groups"
    then have "length c = 8" and "c \<in> set (chunks 8 bits)" by simp_all
    with chunk_binary [OF assms] show "?f c = Inr (of_nat (bits_val c))"
      by (simp add: byte_of_group(1))
  qed
  then have "traverse ?f ?groups = Inr (map (\<lambda>b. of_nat (bits_val b)) ?groups)"
    by (rule traverse_total)
  then show ?thesis by (simp add: bits_to_bytes_def slices_chunks)
qed

lemma byte_bits_of_groups:
  "list_all (\<lambda>c. length c = 8 \<and> list_all is_bit c) cs \<Longrightarrow>
   byte_bits (map (\<lambda>b. of_nat (bits_val b)) cs) = concat cs"
  by (induction cs) (simp_all add: byte_bits_def byte_of_group(2))

lemma decode_bits:
  assumes "list_all is_bit bits"
  shows "\<exists>bs. bits_to_bytes bits = Inr bs \<and> length bs = length bits div 8 \<and>
              byte_bits bs = take (8 * length bs) bits"
proof -
  let ?groups = "filter (\<lambda>b. length b = 8) (chunks 8 bits)"
  let ?bs = "map (\<lambda>b. of_nat (bits_val b) :: byte) ?groups"
  have len: "length ?bs = length bits div 8" by (simp add: length_filter_chunks)
  have "list_all (\<lambda>c. length c = 8 \<and> list_all is_bit c) ?groups"
    unfolding list_all_iff
  proof
    fix c assume "c \<in> set ?groups"
    then have "length c = 8" and "c \<in> set (chunks 8 bits)" by simp_all
    with chunk_binary [OF assms] show "length c = 8 \<and> (\<forall>x\<in>set c. is_bit x)"
      by (simp add: list_all_iff)
  qed
  then have "byte_bits ?bs = concat ?groups" by (rule byte_bits_of_groups)
  also have "\<dots> = take (8 * (length bits div 8)) bits" by (simp add: concat_filter_chunks)
  finally have "byte_bits ?bs = take (8 * length ?bs) bits" by (simp only: len)
  with bits_to_bytes_eq [OF assms] len show ?thesis by blast
qed

text \<open>
  Claim C6. A text of \<open>L\<close> alphabet symbols is decoded without an exception. Its bit
  string has \<open>13 * L\<close> digits; the bytes returned are the consecutive groups of eight
  digits, in order, up to the last complete one, so that only a trailing group of fewer
  than eight digits is left out; there are exactly \<open>\<lfloor>13 * L / 8\<rfloor>\<close> of them.
\<close>

theorem decoded_byte_count:
  assumes "set t \<subseteq> set CHINESE_CHARS"
  shows "\<exists>bits bs. symbol_bits t = Inr bits \<and> length bits = 13 * length t \<and>
           from_chinese_base8192 t = Inr bs \<and> length bs = 13 * length t div 8 \<and>
           byte_bits bs = take (8 * length bs) bits"
proof -
  from alphabet_text [OF assms] obtain vs
    where vs: "list_all (\<lambda>v. v < 8192) vs" and t: "t = map (\<lambda>v. CHINESE_CHARS ! v) vs"
    by blast
  let ?bits = "concat (map (format_b 13) vs)"
  have s: "symbol_bits t = Inr ?bits" unfolding t using vs by (rule symbol_bits_eq)
  have l: "length ?bits = 13 * length t" using length_symbol_bits [OF vs] by (simp add: t)
  from decode_bits [OF symbol_bits_binary [OF vs]] obtain bs
    where bs: "bits_to_bytes ?bits = Inr bs" "length bs = length ?bits div 8"
      "byte_bits bs = take (8 * length bs) ?bits"
    by blast
  from s bs(1) have "from_chinese_base8192 t = Inr bs" by (simp add: from_chinese_base8192_def)
  with s l bs(2,3) show ?thesis by simp
qed

theorem decoded_byte_count_witness:
  "set [Chr 0x5A2C, Chr 0x5600] \<subseteq> set CHINESE_CHARS \<and>
   (\<exists>bs. from_chinese_base8192 [Chr 0x5A2C, Chr 0x5600] = Inr bs \<and> length bs = 3)"
proof -
  have h: "set [Chr 0x5A2C, Chr 0x5600] \<subseteq> set CHINESE_CHARS" by (simp add: in_CHINESE_CHARS)
  from decoded_byte_count [OF h] h show ?thesis by auto
qed

subsection \<open>Empty input\<close>

lemma range_py_empty: "range_py i 0 step = []"
  by (simp add: range_py.simps)

text \<open>
  Claim C8. The empty byte sequence encodes to the empty text, and the empty text decodes
  to the empty byte sequence.
\<close>

theorem empty_input:
  "to_chinese_base8192 [] = Inr [] \<and> from_chinese_base8192 [] = Inr []"
  by (simp add: to_chinese_base8192_def from_chinese_base8192_def byte_bits_def pad13_def
      symbol_bits_def bits_to_bytes_def range_py_empty)

subsection \<open>Decoding an encoded text\<close>

lemma bits_val_zeros: "set c \<subseteq> {CHR ''0''} \<Longrightarrow> bits_val c = 0"
proof (induction c rule: rev_induct)
  case Nil
  show ?case by (simp add: bits_val_Nil)
next
  case (snoc x c)
  then show ?case by (simp add: bits_val_snoc bit_val_def)
qed

lemma bytes_of_zeros:
  "map (\<lambda>b. of_nat (bits_val b) :: byte) (filter (\<lambda>b. length b = 8) (chunks 8 (replicate p CHR ''0'')))
     = replicate (p div 8) 0"
proof -
  let ?groups = "filter (\<lambda>b. length b = 8) (chunks 8 (replicate p CHR ''0''))"
  have "map (\<lambda>b. of_nat (bits_val b) :: byte) ?groups = map (\<lambda>b. 0) ?groups"
  proof (rule map_cong [OF refl])
    fix c assume "c \<in> set ?groups"
    then have "c \<in> set (chunks 8 (replicate p CHR ''0''))" by simp
    from chunks_subset [OF this] have "set c \<subseteq> {CHR ''0''}" by auto
    then show "(of_nat (bits_val c) :: byte) = 0" by (simp add: bits_val_zeros)
  qed
  also have "\<dots> = replicate (length ?groups) 0" by (simp add: map_replicate_const)
  also have "length ?groups = p div 8" by (simp add: length_filter_chunks)
  finally show ?thesis .
qed

lemma byte_of_format: "(of_nat (bits_val (format_b 8 (unat b))) :: byte) = b"
  using bits_val_format_b [of 8 "unat b"] unat_byte_less [of b] by simp

lemma decode_encode:
  "\<exists>t. to_chinese_base8192 data = Inr t \<and>
       from_chinese_base8192 t
         = Inr (data @ replicate ((13 - 8 * length data mod 13) mod 13 div 8) 0)"
proof -
  let ?p = "(13 - 8 * length data mod 13) mod 13"
  let ?zeros = "replicate ?p CHR ''0''"
  let ?bits = "pad13 (byte_bits data)"
  let ?cs = "chunks 13 ?bits"
  let ?t = "map (\<lambda>v. CHINESE_CHARS ! v) (map bits_val ?cs)"
  have bin: "list_all is_bit ?bits" by (simp add: pad13_binary byte_bits_binary)
  have enc: "to_chinese_base8192 data = Inr ?t" by (simp add: to_chinese_base8192_eq)
  have "13 dvd length ?bits" by (simp add: length_pad13)
  then have full: "list_all (\<lambda>c. length c = 13) ?cs" by (simp add: full_chunks)
  have vs: "list_all (\<lambda>v. v < 8192) (map bits_val ?cs)"
    unfolding list_all_iff
  proof
    fix v assume "v \<in> set (map bits_val ?cs)"
    then obtain c where c: "c \<in> set ?cs" "v = bits_val c" by auto
    with full have "length c = 13" by (simp add: list_all_iff)
    with bits_val_bound [of c] c(2) show "v < 8192" by simp
  qed
  have "map (format_b 13) (map bits_val ?cs) = map (\<lambda>c. c) ?cs"
    unfolding map_map
  proof (rule map_cong [OF refl])
    fix c assume c: "c \<in> set ?cs"
    with full have l: "length c = 13" by (simp add: list_all_iff)
    then have "c \<noteq> []" by auto
    from format_b_bits_val [OF this chunk_binary [OF bin c]] l
    show "(format_b 13 \<circ> bits_val) c = c" by simp
  qed
  then have "concat (map (format_b 13) (map bits_val ?cs)) = ?bits"
    by (simp add: concat_chunks)
  with symbol_bits_eq [OF vs] have sym: "symbol_bits ?t = Inr ?bits" by simp
  have "?bits = byte_bits data @ ?zeros"
    using pad13_eq [of "byte_bits data"] by (simp only: length_byte_bits)
  moreover have "byte_bits data = concat (map (\<lambda>byte. format_b 8 (unat byte)) data)"
    by (simp add: byte_bits_def)
  ultimately have bits: "?bits = concat (map (\<lambda>byte. format_b 8 (unat byte)) data) @ ?zeros"
    by simp
  have "list_all (\<lambda>x. length x = 8) (map (\<lambda>byte. format_b 8 (unat byte)) data)"
    by (simp add: list_all_iff length_format_byte)
  then have "chunks 8 ?bits = map (\<lambda>byte. format_b 8 (unat byte)) data @ chunks 8 ?zeros"
    unfolding bits by (rule chunks_concat [rotated]) simp
  then have "map (\<lambda>b. of_nat (bits_val b) :: byte) (filter (\<lambda>b. length b = 8) (chunks 8 ?bits))
      = data @ replicate (?p div 8) 0"
    by (simp add: length_format_byte bytes_of_zeros byte_of_format comp_def)
  with bits_to_bytes_eq [OF bin] have "bits_to_bytes ?bits = Inr (data @ replicate (?p div 8) 0)"
    by simp
  with sym have "from_chinese_base8192 ?t = Inr (data @ replicate (?p div 8) 0)"
    by (simp add: from_chinese_base8192_def)
  with enc show ?thesis by blast
qed

text \<open>
  The encoder pads with up to 12 zeros. When it pads with 8 or more, the decoder finds a
  complete group of eight zeros behind the data and returns it as a byte.
\<close>

lemma round_trip_iff:
  "(\<exists>t. to_chinese_base8192 data = Inr t \<and> from_chinese_base8192 t = Inr data)
     \<longleftrightarrow> (13 - 8 * length data mod 13) mod 13 < 8"
proof -
  let ?p = "(13 - 8 * length data mod 13) mod 13"
  from decode_encode [of data] obtain t where t: "to_chinese_base8192 data = Inr t"
    "from_chinese_base8192 t = Inr (data @ replicate (?p div 8) 0)"
    by blast
  have "(\<exists>t. to_chinese_base8192 data = Inr t \<and> from_chinese_base8192 t = Inr data)
      \<longleftrightarrow> ?p div 8 = 0"
    using t by auto
  also have "\<dots> \<longleftrightarrow> ?p < 8" by (simp add: div_eq_0_iff)
  finally show ?thesis .
qed

text \<open>
  Claim C1 fails on the code. The two bytes \<open>ab\<close> have 16 bits and are padded with 10
  zeros to two symbols; decoding these two symbols gives three bytes, \<open>ab\<close> and a zero
  byte, not the two bytes encoded.
\<close>

theorem round_trip_two_bytes:
  "to_chinese_base8192 [0x61, 0x62] = Inr [Chr 0x5A2C, Chr 0x5600] \<and>
   from_chinese_base8192 [Chr 0x5A2C, Chr 0x5600] = Inr [0x61, 0x62, 0x00]"
proof -
  have bits: "byte_bits [0x61, 0x62] = ''0110000101100010''"
    by code_simp
  have pad: "pad13 ''0110000101100010'' = ''01100001011000100000000000''"
    by code_simp
  have cs: "chunks 13 ''01100001011000100000000000'' = [''0110000101100'', ''0100000000000'']"
    by code_simp
  have v: "bits_val ''0110000101100'' = 3116" "bits_val ''0100000000000'' = 2048"
    by code_simp+
  have enc: "to_chinese_base8192 [0x61, 0x62] = Inr [Chr 0x5A2C, Chr 0x5600]"
    by (simp add: to_chinese_base8192_eq bits pad cs v CHINESE_CHARS_nth)
  from decode_encode [of "[0x61, 0x62]"] enc show ?thesis by simp
qed

section \<open>The two copies of the decoder\<close>

lemma inference_CHINESE_CHARS_eq: "inference_CHINESE_CHARS = CHINESE_CHARS"
  by (simp add: inference_CHINESE_CHARS_def CHINESE_CHARS_def)

lemma inference_CHAR_TO_VAL_eq: "inference_CHAR_TO_VAL = CHAR_TO_VAL"
  by (simp add: inference_CHAR_TO_VAL_def CHAR_TO_VAL_def inference_CHINESE_CHARS_eq)

text \<open>
  Claim C9. The decoder of inference.py and the decoder of optimizer.py return the same
  result on every text, the same exception included.
\<close>

theorem decoders_agree:
  "inference_from_chinese_base8192 t = from_chinese_base8192 t"
  by (simp add: inference_from_chinese_base8192_def from_chinese_base8192_def symbol_bits_def
      bits_to_bytes_def inference_CHAR_TO_VAL_eq split: sum.splits)

section \<open>The precision reducer\<close>

lemma sample_archive_simps:
  "sample_archive ''w'' = Some sample_w" "sample_archive ''u'' = Some sample_u"
  "sample_archive ''b'' = Some sample_b" "sample_archive ''c'' = Some sample_c"
  "sample_archive ''r'' = Some sample_r"
  by (simp_all add: sample_archive_def)

lemma sample_load_model: "sample_load ''model.npz'' = Inr sample_archive"
  by (simp add: sample_load_def)

text \<open>
  Claim C5. An entry whose dtype kind is not \<open>f\<close> comes out of the reducer as it went in:
  the same dtype, the same shape, the same elements.
\<close>

theorem non_float_entry_unchanged:
  assumes "np_load npz_path = Inr data" and "data k = Some v"
    and "kind (dtype v) \<noteq> CHR ''f''"
  shows "\<exists>m. float16_dict_from_npz np_load cast npz_path = Inr m \<and> m k = Some v"
  using assms by (simp add: float16_dict_from_npz_def)

theorem non_float_entry_unchanged_witness:
  "sample_load ''model.npz'' = Inr sample_archive \<and> sample_archive ''b'' = Some sample_b \<and>
   kind (dtype sample_b) \<noteq> CHR ''f'' \<and>
   (\<exists>m. float16_dict_from_npz sample_load sample_cast ''model.npz'' = Inr m \<and>
        m ''b'' = Some \<lparr>dtype = int64, shape = [3], elems = [1, 2, 3]\<rparr>)"
proof -
  have k: "kind (dtype sample_b) \<noteq> CHR ''f''" by (simp add: sample_b_def int64_def)
  from non_float_entry_unchanged [where np_load = sample_load and npz_path = "''model.npz''"
      and data = sample_archive and k = "''b''" and v = sample_b and cast = sample_cast]
    sample_load_model sample_archive_simps(3) k
  have "\<exists>m. float16_dict_from_npz sample_load sample_cast ''model.npz'' = Inr m \<and>
         m ''b'' = Some sample_b"
    by blast
  with k show ?thesis by (simp add: sample_load_model sample_archive_simps sample_b_def)
qed

text \<open>
  Claim C10. A floating entry of any width comes out with dtype float16, two bytes an
  element whatever the width was, with its shape kept and each element converted from the
  old dtype to float16.
\<close>

theorem float_entry_becomes_float16:
  assumes "np_load npz_path = Inr data" and "data k = Some v"
    and "kind (dtype v) = CHR ''f''"
  shows "\<exists>m v'. float16_dict_from_npz np_load cast npz_path = Inr m \<and> m k = Some v' \<and>
           dtype v' = float16 \<and> itemsize (dtype v') = 2 \<and> shape v' = shape v \<and>
           elems v' = map (cast (dtype v) float16) (elems v)"
  using assms by (simp add: float16_dict_from_npz_def astype_def float16_def)

theorem float_entry_becomes_float16_witness:
  "sample_load ''model.npz'' = Inr sample_archive \<and> sample_archive ''w'' = Some sample_w \<and>
   kind (dtype sample_w) = CHR ''f'' \<and> itemsize (dtype sample_w) = 8 \<and>
   (\<exists>m. float16_dict_from_npz sample_load sample_cast ''model.npz'' = Inr m \<and>
        m ''w'' = Some \<lparr>dtype = float16, shape = [2, 2], elems = [5, 10, 15, 20]\<rparr>)"
proof -
  have k: "kind (dtype sample_w) = CHR ''f''" by (simp add: sample_w_def float64_def)
  from float_entry_becomes_float16 [where np_load = sample_load and npz_path = "''model.npz''"
      and data = sample_archive and k = "''w''" and v = sample_w and cast = sample_cast]
    sample_load_model sample_archive_simps(1) k
  obtain m v' where m: "float16_dict_from_npz sample_load sample_cast ''model.npz'' = Inr m"
    and v': "m ''w'' = Some v'" "dtype v' = float16" "shape v' = shape sample_w"
      "elems v' = map (sample_cast (dtype sample_w) float16) (elems sample_w)"
    by blast
  have "v' = \<lparr>dtype = float16, shape = [2, 2], elems = [5, 10, 15, 20]\<rparr>"
    using v'(2-4) by (cases v') (simp add: sample_w_def sample_cast_def)
  with m v'(1) k show ?thesis
    by (simp add: sample_load_model sample_archive_simps sample_w_def float64_def)
qed

text \<open>
  Claim C7, as stated, does not hold: no dtype makes the reducer fail. An array of
  records with a floating and an integer field, which is neither a floating array nor
  a non-floating one, is returned as it is.
\<close>

theorem unsupported_type_counterexample:
  "sample_archive ''r'' = Some sample_r \<and> kind (dtype sample_r) = CHR ''V'' \<and>
   \<not> isl (float16_dict_from_npz sample_load sample_cast ''model.npz'') \<and>
   projr (float16_dict_from_npz sample_load sample_cast ''model.npz'') ''r'' = Some sample_r"
  by (simp add: float16_dict_from_npz_def sample_load_model sample_archive_simps sample_r_def
      record_dtype_def)

text \<open>
  Claim C7, amended. The reducer has no failure for an unsupported element type: its one
  test is \<open>dtype.kind == "f"\<close>, and every entry that was read from the archive with
  another kind, whatever that kind is, is passed through unchanged.
\<close>

theorem reducer_never_rejects:
  assumes "np_load npz_path = Inr data"
  shows "\<exists>m. float16_dict_from_npz np_load cast npz_path = Inr m \<and>
           (\<forall>k v. data k = Some v \<and> kind (dtype v) \<noteq> CHR ''f'' \<longrightarrow> m k = Some v)"
  using assms by (simp add: float16_dict_from_npz_def)

theorem reducer_never_rejects_witness:
  "sample_load ''model.npz'' = Inr sample_archive \<and>
   sample_archive ''c'' = Some sample_c \<and> kind (dtype sample_c) \<noteq> CHR ''f'' \<and>
   sample_archive ''r'' = Some sample_r \<and> kind (dtype sample_r) \<noteq> CHR ''f'' \<and>
   (\<exists>m. float16_dict_from_npz sample_load sample_cast ''model.npz'' = Inr m \<and>
        m ''c'' = Some sample_c \<and> m ''r'' = Some sample_r)"
proof -
  have c: "kind (dtype sample_c) \<noteq> CHR ''f''" by (simp add: sample_c_def complex128_def)
  have r: "kind (dtype sample_r) \<noteq> CHR ''f''" by (simp add: sample_r_def record_dtype_def)
  from reducer_never_rejects [where np_load = sample_load and npz_path = "''model.npz''"
      and data = sample_archive and cast = sample_cast] sample_load_model
  obtain m where m: "float16_dict_from_npz sample_load sample_cast ''model.npz'' = Inr m"
    "\<forall>k v. sample_archive k = Some v \<and> kind (dtype v) \<noteq> CHR ''f'' \<longrightarrow> m k = Some v"
    by blast
  from m(2) sample_archive_simps(4) c have "m ''c'' = Some sample_c" by blast
  moreover from m(2) sample_archive_simps(5) r have "m ''r'' = Some sample_r" by blast
  ultimately show ?thesis using m(1) c r by (simp add: sample_load_model sample_archive_simps)
qed

end
